theory Spec2Isabelle
  imports Complex_Main "HOL-Library.Sublist"
begin

section \<open>Characters and strings\<close>

text \<open>
  Python strings are sequences of code points. The model uses \<^typ>\<open>string\<close>, whose
  characters are read as the code points 0..255, and gives the character classes of
  Python's \<^verbatim>\<open>re\<close> module and of \<^verbatim>\<open>str.strip\<close>, \<^verbatim>\<open>str.lower\<close> on that range.
  Python floats are modelled as exact rationals.
\<close>

datatype error = ZeroDivisionError | IndexError

definition code :: "char \<Rightarrow> nat" where
  "code c = of_char c"

text \<open>The class \<^verbatim>\<open>\s\<close> of a str pattern, which is also what \<^verbatim>\<open>str.strip()\<close> removes.\<close>

definition is_space :: "char \<Rightarrow> bool" where
  "is_space c = (code c \<in> {9, 10, 11, 12, 13, 28, 29, 30, 31, 32, 133, 160})"

text \<open>The class \<^verbatim>\<open>\d\<close>.\<close>

definition is_digit :: "char \<Rightarrow> bool" where
  "is_digit c = (48 \<le> code c \<and> code c \<le> 57)"

text \<open>The class \<^verbatim>\<open>\w\<close>: alphanumeric code points and the underscore.\<close>

definition is_word :: "char \<Rightarrow> bool" where
  "is_word c = (let n = code c in
     (48 \<le> n \<and> n \<le> 57) \<or> (65 \<le> n \<and> n \<le> 90) \<or> n = 95 \<or> (97 \<le> n \<and> n \<le> 122) \<or>
     n \<in> {170, 178, 179, 181, 185, 186, 188, 189, 190} \<or>
     (192 \<le> n \<and> n \<le> 214) \<or> (216 \<le> n \<and> n \<le> 246) \<or> (248 \<le> n \<and> n \<le> 255))"

text \<open>The class \<^verbatim>\<open>[.!?]\<close>.\<close>

definition is_terminal :: "char \<Rightarrow> bool" where
  "is_terminal c = (c = CHR ''.'' \<or> c = CHR ''!'' \<or> c = CHR ''?'')"

definition newline :: char where
  "newline = CHR 0x0A"

definition lower_char :: "char \<Rightarrow> char" where
  "lower_char c = (let n = code c in
     if (65 \<le> n \<and> n \<le> 90) \<or> (192 \<le> n \<and> n \<le> 214) \<or> (216 \<le> n \<and> n \<le> 222)
     then char_of (n + 32) else c)"

definition lower :: "string \<Rightarrow> string" where
  "lower s = map lower_char s"

definition strip :: "string \<Rightarrow> string" where
  "strip s = rev (dropWhile is_space (rev (dropWhile is_space s)))"

text \<open>\<^verbatim>\<open>sep.join(parts)\<close>\<close>

fun join :: "string \<Rightarrow> string list \<Rightarrow> string" where
  "join sep [] = []"
| "join sep [x] = x"
| "join sep (x # y # ys) = x @ sep @ join sep (y # ys)"

text \<open>Puts a character in front of the first fragment of a list of fragments.\<close>

fun cons_hd :: "char \<Rightarrow> string list \<Rightarrow> string list" where
  "cons_hd c [] = [[c]]"
| "cons_hd c (f # fs) = (c # f) # fs"

text \<open>\<^verbatim>\<open>len(text) // 4\<close>\<close>

definition estimate_tokens :: "string \<Rightarrow> int" where
  "estimate_tokens text = int (length text) div 4"

text \<open>\<^verbatim>\<open>int(x)\<close> of a float: truncation towards zero.\<close>

definition py_int :: "rat \<Rightarrow> int" where
  "py_int x = (if 0 \<le> x then \<lfloor>x\<rfloor> else \<lceil>x\<rceil>)"

text \<open>\<^verbatim>\<open>a / b\<close> on numbers: raises on a zero divisor.\<close>

definition truediv :: "rat \<Rightarrow> rat \<Rightarrow> error + rat" where
  "truediv a b = (if b = 0 then Inl ZeroDivisionError else Inr (a / b))"

section \<open>Regular-expression operations\<close>

text \<open>
  \<^verbatim>\<open>re.sub(r'\s+', ' ', text)\<close>: scanning from the left, every maximal run of
  whitespace is replaced by one space.
\<close>

function sub_whitespace :: "string \<Rightarrow> string" where
  "sub_whitespace [] = []"
| "sub_whitespace (c # cs) =
     (if is_space c then CHR '' '' # sub_whitespace (dropWhile is_space cs)
      else c # sub_whitespace cs)"
  by pat_completeness auto

termination sub_whitespace
  by (relation "measure length") (auto simp: le_imp_less_Suc length_dropWhile_le)

text \<open>
  \<^verbatim>\<open>re.sub(r'(.)\1{4,}', r'\1\1', text)\<close>: at a character other than the newline that
  is followed by at least four copies of itself, the greedy match takes the whole run of
  copies and two copies replace it.
\<close>

function sub_repeats :: "string \<Rightarrow> string" where
  "sub_repeats [] = []"
| "sub_repeats (c # cs) =
     (if c \<noteq> newline \<and> 4 \<le> length (takeWhile (\<lambda>x. x = c) cs)
      then c # c # sub_repeats (dropWhile (\<lambda>x. x = c) cs)
      else c # sub_repeats cs)"
  by pat_completeness auto

termination sub_repeats
  by (relation "measure length") (auto simp: le_imp_less_Suc length_dropWhile_le)

text \<open>
  \<^verbatim>\<open>re.split(r'(?<=[.!?])\s+', text)\<close>: a match starts at a whitespace character whose
  predecessor is a terminal mark and takes the whole whitespace run; the fragments between
  the matches are returned, empty ones included. The flag says whether the character before
  the current position is a terminal mark.
\<close>

function re_split_from :: "bool \<Rightarrow> string \<Rightarrow> string list" where
  "re_split_from after [] = [[]]"
| "re_split_from after (c # cs) =
     (if after \<and> is_space c then [] # re_split_from False (dropWhile is_space cs)
      else cons_hd c (re_split_from (is_terminal c) cs))"
  by pat_completeness auto

termination re_split_from
  by (relation "measure (\<lambda>(after, s). length s)") (auto simp: le_imp_less_Suc length_dropWhile_le)

definition re_split_sentences :: "string \<Rightarrow> string list" where
  "re_split_sentences text = re_split_from False text"

text \<open>\<^verbatim>\<open>re.findall(r'\b\w+\b', s)\<close>: the maximal runs of word characters, left to right.\<close>

function findall_words :: "string \<Rightarrow> string list" where
  "findall_words [] = []"
| "findall_words (c # cs) =
     (if is_word c then (c # takeWhile is_word cs) # findall_words (dropWhile is_word cs)
      else findall_words cs)"
  by pat_completeness auto

termination findall_words
  by (relation "measure length") (auto simp: le_imp_less_Suc length_dropWhile_le)

text \<open>\<^verbatim>\<open>re.search(r'\d', s)\<close> as a truth value.\<close>

definition search_digit :: "string \<Rightarrow> bool" where
  "search_digit s = list_ex is_digit s"

text \<open>
  \<^verbatim>\<open>re.sub(r'\n\s*\d+\s*\n', '\n', text)\<close>: \<open>match_page_number cs\<close> is tried on the
  text after a newline and gives the number of characters the match takes after that
  newline. The two greedy whitespace runs and the digit run are over disjoint classes, so
  only the last \<^verbatim>\<open>\s*\<close> backtracks, to the last newline of its run.
\<close>

definition match_page_number :: "string \<Rightarrow> nat option" where
  "match_page_number cs =
     (let s1 = takeWhile is_space cs;
          a = dropWhile is_space cs;
          d = takeWhile is_digit a;
          w = takeWhile is_space (dropWhile is_digit a)
      in if d = [] \<or> newline \<notin> set w then None
         else Some (length s1 + length d +
                    (length w - length (takeWhile (\<lambda>c. c \<noteq> newline) (rev w)))))"

function sub_page_numbers :: "string \<Rightarrow> string" where
  "sub_page_numbers [] = []"
| "sub_page_numbers (c # cs) =
     (if c = newline then
        (case match_page_number cs of
           Some k \<Rightarrow> newline # sub_page_numbers (drop k cs)
         | None \<Rightarrow> c # sub_page_numbers cs)
      else c # sub_page_numbers cs)"
  by pat_completeness auto

termination sub_page_numbers
  by (relation "measure length") (auto simp: le_imp_less_Suc)

section \<open>Python built-ins\<close>

text \<open>\<^verbatim>\<open>xs[:k]\<close>: a negative bound counts from the end.\<close>

definition slice_to :: "int \<Rightarrow> 'a list \<Rightarrow> 'a list" where
  "slice_to k xs = (if 0 \<le> k then take (nat k) xs else take (length xs - nat (- k)) xs)"

text \<open>\<^verbatim>\<open>text.split(sep)\<close> for a separator of one character.\<close>

fun split_on :: "char \<Rightarrow> string \<Rightarrow> string list" where
  "split_on sep [] = [[]]"
| "split_on sep (c # cs) =
     (if c = sep then [] # split_on sep cs else cons_hd c (split_on sep cs))"

text \<open>\<^verbatim>\<open>text.replace(old, new)\<close>: non-overlapping occurrences, from the left.\<close>

function replace :: "string \<Rightarrow> string \<Rightarrow> string \<Rightarrow> string" where
  "replace old new [] = (if old = [] then new else [])"
| "replace old new (c # cs) =
     (if old = [] then new @ c # replace old new cs
      else if prefix old (c # cs) then new @ replace old new (drop (length old) (c # cs))
      else c # replace old new cs)"
  by pat_completeness auto

termination replace
  by (relation "measure (\<lambda>(old, new, s). length s)") auto

text \<open>\<^verbatim>\<open>Counter(words)\<close>: the counts, keyed in order of first occurrence.\<close>

fun counter_add :: "string \<Rightarrow> (string \<times> nat) list \<Rightarrow> (string \<times> nat) list" where
  "counter_add w [] = [(w, 1)]"
| "counter_add w ((k, n) # kvs) =
     (if k = w then (k, n + 1) # kvs else (k, n) # counter_add w kvs)"

definition Counter :: "string list \<Rightarrow> (string \<times> nat) list" where
  "Counter ws = foldl (\<lambda>acc w. counter_add w acc) [] ws"

text \<open>A loop whose body may raise: the first error ends it.\<close>

fun traverse :: "('a \<Rightarrow> error + 'b) \<Rightarrow> 'a list \<Rightarrow> error + 'b list" where
  "traverse f [] = Inr []"
| "traverse f (x # xs) =
     (case f x of
        Inl e \<Rightarrow> Inl e
      | Inr y \<Rightarrow> (case traverse f xs of Inl e \<Rightarrow> Inl e | Inr ys \<Rightarrow> Inr (y # ys)))"

text \<open>\<^verbatim>\<open>xs[i]\<close> for an index that is not negative.\<close>

definition getitem :: "'a list \<Rightarrow> nat \<Rightarrow> error + 'a" where
  "getitem xs i = (if i < length xs then Inr (xs ! i) else Inl IndexError)"

text \<open>What a run of \<^verbatim>\<open>compress\<close> returns and the two estimates it prints.\<close>

record compress_result =
  compressed :: string
  original_tokens :: int
  final_tokens :: int

section \<open>AdvancedPDFCompressor\<close>

definition sentence_tokenize :: "string \<Rightarrow> string list" where
  "sentence_tokenize text = [strip s. s \<leftarrow> re_split_sentences text, strip s \<noteq> []]"

definition stop_words :: "string set" where
  "stop_words = {''the'', ''a'', ''an'', ''and'', ''or'', ''but'', ''in'', ''on'', ''at'',
     ''to'', ''for'', ''of'', ''with'', ''by'', ''from'', ''is'', ''was'',
     ''are'', ''were'', ''be'', ''been'', ''being'', ''have'', ''has'', ''had''}"

text \<open>Lines 51 to 59 of the scorer: the tokens that are counted.\<close>

definition all_words :: "string list \<Rightarrow> string list" where
  "all_words sentences = concat (map (\<lambda>sentence. findall_words (lower sentence)) sentences)"

definition content_words :: "string list \<Rightarrow> string list" where
  "content_words sentences = [w \<leftarrow> all_words sentences. w \<notin> stop_words \<and> 2 < length w]"

text \<open>\<^verbatim>\<open>max(word_freq.values()) if word_freq else 1\<close>\<close>

definition max_freq :: "(string \<times> nat) list \<Rightarrow> nat" where
  "max_freq word_freq = (case map snd word_freq of [] \<Rightarrow> 1 | v # vs \<Rightarrow> fold max vs v)"

text \<open>Lines 61 to 67: the counts, each divided by the largest.\<close>

definition word_freq_table :: "string list \<Rightarrow> error + (string \<times> rat) list" where
  "word_freq_table sentences =
     (let word_freq = Counter (content_words sentences);
          m = max_freq word_freq
      in traverse (\<lambda>(word, n). case truediv (of_nat n) (of_nat m) of
                                  Inl e \<Rightarrow> Inl e | Inr f \<Rightarrow> Inr (word, f)) word_freq)"

text \<open>Lines 72 to 84: the score of the sentence at index \<open>i\<close> of \<open>n\<close> sentences.\<close>

definition add_word :: "(string \<times> rat) list \<Rightarrow> string \<Rightarrow> rat \<Rightarrow> rat" where
  "add_word word_freq word score =
     (case map_of word_freq word of Some f \<Rightarrow> score + f | None \<Rightarrow> score)"

definition sentence_score :: "(string \<times> rat) list \<Rightarrow> nat \<Rightarrow> nat \<Rightarrow> string \<Rightarrow> rat" where
  "sentence_score word_freq n i sentence =
     (let s0 = fold (add_word word_freq) (findall_words (lower sentence)) 0;
          s1 = (if i < 3 \<or> int n - 3 \<le> int i then s0 * (12 / 10) else s0);
          s2 = (if search_digit sentence then s1 * (11 / 10) else s1)
      in s2)"

text \<open>The score dictionary, keyed by index in insertion order.\<close>

definition calculate_sentence_scores :: "string list \<Rightarrow> error + (nat \<times> rat) list" where
  "calculate_sentence_scores sentences =
     (case word_freq_table sentences of
        Inl e \<Rightarrow> Inl e
      | Inr word_freq \<Rightarrow>
          Inr (map (\<lambda>(i, sentence). (i, sentence_score word_freq (length sentences) i sentence))
                 (enumerate 0 sentences)))"

text \<open>
  \<^verbatim>\<open>sorted(scores, key=scores.get, reverse=True)\<close>: the keys in the order of their
  values, largest first. With \<^verbatim>\<open>reverse=True\<close> the list is reversed, sorted stably
  in ascending order and reversed again. Each key travels with its value.
\<close>

definition sorted_reverse :: "(nat \<times> rat) list \<Rightarrow> nat list" where
  "sorted_reverse scores = map fst (rev (sort_key snd (rev scores)))"

text \<open>\<^verbatim>\<open>max(1, int(len(sentences) * target_ratio))\<close>\<close>

definition num_sentences :: "nat \<Rightarrow> rat \<Rightarrow> int" where
  "num_sentences n target_ratio = max 1 (py_int (of_nat n * target_ratio))"

text \<open>Lines 107 and 110: the chosen indices, back in ascending order.\<close>

definition top_indices :: "(nat \<times> rat) list \<Rightarrow> int \<Rightarrow> nat list" where
  "top_indices scores k = sort (slice_to k (sorted_reverse scores))"

text \<open>The sentences that line 113 joins.\<close>

definition selected_sentences :: "string list \<Rightarrow> rat \<Rightarrow> error + string list" where
  "selected_sentences sentences target_ratio =
     (case calculate_sentence_scores sentences of
        Inl e \<Rightarrow> Inl e
      | Inr scores \<Rightarrow>
          traverse (getitem sentences)
            (top_indices scores (num_sentences (length sentences) target_ratio)))"

definition extractive_summarize :: "string \<Rightarrow> rat \<Rightarrow> error + string" where
  "extractive_summarize text target_ratio =
     (let sentences = sentence_tokenize text
      in if sentences = [] then Inr text
         else (case selected_sentences sentences target_ratio of
                 Inl e \<Rightarrow> Inl e
               | Inr chosen \<Rightarrow> Inr (join '' '' chosen)))"

text \<open>Lines 124 and 125 of \<^verbatim>\<open>compress\<close>.\<close>

definition normalize :: "string \<Rightarrow> string" where
  "normalize text = sub_repeats (sub_whitespace text)"

text \<open>
  \<^verbatim>\<open>compress\<close> from the extracted text on; no output path is given. The percentage
  of the last \<^verbatim>\<open>print\<close> is computed and may raise.
\<close>

definition AdvancedPDFCompressor_compress :: "int \<Rightarrow> rat \<Rightarrow> string \<Rightarrow> error + compress_result" where
  "AdvancedPDFCompressor_compress max_tokens compression_ratio extracted =
     (let original = estimate_tokens extracted;
          text = normalize extracted;
          target_tokens = min max_tokens (py_int (of_int original * compression_ratio))
      in case (if original \<le> max_tokens then Inr text
               else (case truediv (of_int target_tokens) (of_int original) of
                       Inl e \<Rightarrow> Inl e
                     | Inr ratio \<Rightarrow> extractive_summarize text ratio)) of
           Inl e \<Rightarrow> Inl e
         | Inr summary \<Rightarrow>
             (let final = estimate_tokens summary
              in case truediv (of_int final) (of_int original) of
                   Inl e \<Rightarrow> Inl e
                 | Inr percent \<Rightarrow>
                     Inr \<lparr>compressed = summary, original_tokens = original,
                          final_tokens = final\<rparr>))"

section \<open>PDFCompressor\<close>

definition clean_text :: "string \<Rightarrow> string" where
  "clean_text text = strip (sub_page_numbers (sub_repeats (sub_whitespace text)))"

text \<open>The loop of \<^verbatim>\<open>remove_redundancy\<close>, with the set of keys seen so far.\<close>

fun unique_lines :: "string set \<Rightarrow> string list \<Rightarrow> string list" where
  "unique_lines seen [] = []"
| "unique_lines seen (l # ls) =
     (let line = strip l
      in if line = [] then unique_lines seen ls
         else (let line_key = take 100 (lower line)
               in if line_key \<notin> seen then line # unique_lines (insert line_key seen) ls
                  else unique_lines seen ls))"

definition remove_redundancy :: "string \<Rightarrow> string" where
  "remove_redundancy text = join [newline] (unique_lines {} (split_on newline text))"

definition replacements :: "(string \<times> string) list" where
  "replacements =
     [('' and '', '' & ''), ('' with '', '' w/ ''), ('' without '', '' w/o ''),
      ('' through '', '' thru ''), ('' between '', '' btwn ''), ('' approximately '', '' ~''),
      ('' percent '', ''%''), ('' number '', ''#''), ('' versus '', '' vs '')]"

definition compress_abbreviations :: "string \<Rightarrow> string" where
  "compress_abbreviations text = fold (\<lambda>(old, new) t. replace old new t) replacements text"

definition PDFCompressor_compress :: "int \<Rightarrow> string \<Rightarrow> error + compress_result" where
  "PDFCompressor_compress max_tokens extracted =
     (let max_chars = max_tokens * 4;
          original = estimate_tokens extracted;
          text = compress_abbreviations (remove_redundancy (clean_text extracted));
          tokens = estimate_tokens text;
          text = (if max_tokens < tokens then slice_to max_chars text else text);
          tokens = estimate_tokens text
      in case truediv (of_int tokens) (of_int original) of
           Inl e \<Rightarrow> Inl e
         | Inr percent \<Rightarrow>
             Inr \<lparr>compressed = text, original_tokens = original, final_tokens = tokens\<rparr>)"

section \<open>The segmenter in the words of the specification\<close>

text \<open>
  The specification's segmenter, for comparison with \<open>sentence_tokenize\<close>: the text is
  cut at every position that immediately follows a terminal mark and is followed by
  whitespace (nothing is removed by the cut), each fragment is trimmed, and the empty ones
  are dropped.
\<close>

fun spec_cut_from :: "bool \<Rightarrow> string \<Rightarrow> string list" where
  "spec_cut_from after [] = [[]]"
| "spec_cut_from after (c # cs) =
     (if after \<and> is_space c then [] # cons_hd c (spec_cut_from (is_terminal c) cs)
      else cons_hd c (spec_cut_from (is_terminal c) cs))"

definition spec_sentences :: "string \<Rightarrow> string list" where
  "spec_sentences text = [strip s. s \<leftarrow> spec_cut_from False text, strip s \<noteq> []]"

text \<open>The second fragment is the first behind a run of whitespace.\<close>

definition ws_prefixed :: "string \<Rightarrow> string \<Rightarrow> bool" where
  "ws_prefixed a b = (\<exists>w. (\<forall>c\<in>set w. is_space c) \<and> b = w @ a)"

section \<open>Evaluation on the empty document\<close>

text \<open>
  Claim C1. On the empty extracted text the advanced \<^verbatim>\<open>compress\<close> does not return: the
  original estimate is 0, and the percentage of the final \<^verbatim>\<open>print\<close> (or, for a negative
  ceiling, the ratio of the summarisation branch) divides by it, so the run ends in
  \<^verbatim>\<open>ZeroDivisionError\<close> for every ceiling and every compression ratio.
\<close>

theorem compress_empty_raises:
  "estimate_tokens [] = 0 \<and>
   AdvancedPDFCompressor_compress max_tokens compression_ratio [] = Inl ZeroDivisionError"
  by (simp add: AdvancedPDFCompressor_compress_def estimate_tokens_def normalize_def
      truediv_def Let_def)

section \<open>The budget controller below the ceiling\<close>

lemma length_sub_whitespace_le: "length (sub_whitespace s) \<le> length s"
proof (induction s rule: sub_whitespace.induct)
  case 1
  show ?case by simp
next
  case (2 c cs)
  show ?case
  proof (cases "is_space c")
    case True
    have "length (dropWhile is_space cs) \<le> length cs" by (rule length_dropWhile_le)
    with 2(1)[OF True] True show ?thesis by simp
  next
    case False
    with 2(2)[OF False] show ?thesis by simp
  qed
qed

lemma length_sub_repeats_le: "length (sub_repeats s) \<le> length s"
proof (induction s rule: sub_repeats.induct)
  case 1
  show ?case by simp
next
  case (2 c cs)
  let ?run = "c \<noteq> newline \<and> 4 \<le> length (takeWhile (\<lambda>x. x = c) cs)"
  show ?case
  proof (cases ?run)
    case True
    have "length cs = length (takeWhile (\<lambda>x. x = c) cs) + length (dropWhile (\<lambda>x. x = c) cs)"
      by (metis length_append takeWhile_dropWhile_id)
    with 2(1)[OF True] True show ?thesis by simp
  next
    case False
    with 2(2)[OF False] show ?thesis by auto
  qed
qed

lemma length_normalize_le: "length (normalize s) \<le> length s"
  unfolding normalize_def
  using length_sub_repeats_le[of "sub_whitespace s"] length_sub_whitespace_le[of s] by linarith

lemma estimate_tokens_mono: "length a \<le> length b \<Longrightarrow> estimate_tokens a \<le> estimate_tokens b"
  unfolding estimate_tokens_def by (simp add: zdiv_mono1)

text \<open>
  Claim C2, amended. For every extracted text whose estimate is at least 1 and at most the
  ceiling, the advanced \<^verbatim>\<open>compress\<close> returns the normalised text without summarising.
  The original estimate is taken before normalisation and the final one after it, so the
  final estimate is that of the normalised text and is at most the original one.
\<close>

theorem compress_below_threshold:
  assumes "1 \<le> estimate_tokens text" and "estimate_tokens text \<le> max_tokens"
  shows "AdvancedPDFCompressor_compress max_tokens compression_ratio text =
           Inr \<lparr>compressed = normalize text, original_tokens = estimate_tokens text,
                final_tokens = estimate_tokens (normalize text)\<rparr>
         \<and> estimate_tokens (normalize text) \<le> estimate_tokens text"
proof -
  have "estimate_tokens text \<noteq> 0" using assms(1) by simp
  then have "AdvancedPDFCompressor_compress max_tokens compression_ratio text =
           Inr \<lparr>compressed = normalize text, original_tokens = estimate_tokens text,
                final_tokens = estimate_tokens (normalize text)\<rparr>"
    using assms(2) by (simp add: AdvancedPDFCompressor_compress_def Let_def truediv_def)
  moreover have "estimate_tokens (normalize text) \<le> estimate_tokens text"
    by (rule estimate_tokens_mono) (rule length_normalize_le)
  ultimately show ?thesis by simp
qed

text \<open>An instance: ten characters, one whitespace run collapsed, both estimates 2.\<close>

theorem compress_below_threshold_witness:
  "AdvancedPDFCompressor_compress 5 (1 / 2) ''a  bcdefgh'' =
     Inr \<lparr>compressed = ''a bcdefgh'', original_tokens = 2, final_tokens = 2\<rparr>"
  using compress_below_threshold [of "''a  bcdefgh''" 5 "1 / 2"]
  by (simp add: estimate_tokens_def normalize_def is_space_def code_def newline_def)

text \<open>
  The claim as stated fails where normalisation shortens the text across a multiple of
  four: eight characters give the original estimate 2, the two that remain give 0.
\<close>

theorem compress_below_threshold_counterexample:
  "estimate_tokens ''a       '' \<le> 5 \<and>
   AdvancedPDFCompressor_compress 5 (1 / 2) ''a       '' =
     Inr \<lparr>compressed = ''a '', original_tokens = 2, final_tokens = 0\<rparr>"
  by (simp add: AdvancedPDFCompressor_compress_def estimate_tokens_def normalize_def
      is_space_def code_def truediv_def)

section \<open>The sentence segmenter\<close>

lemma space_not_terminal: "is_space c \<Longrightarrow> \<not> is_terminal c"
  by (auto simp: is_space_def is_terminal_def code_def)

lemma strip_ws_prefix: "\<forall>c\<in>set w. is_space c \<Longrightarrow> strip (w @ a) = strip a"
  by (simp add: strip_def dropWhile_append2)

lemma spec_cut_skip_ws:
  "\<exists>y ys. spec_cut_from False (dropWhile is_space cs) = y # ys \<and>
          spec_cut_from False cs = (takeWhile is_space cs @ y) # ys"
proof (induction cs)
  case Nil
  show ?case by simp
next
  case (Cons c cs)
  show ?case
  proof (cases "is_space c")
    case True
    then have nt: "\<not> is_terminal c" by (rule space_not_terminal)
    from Cons obtain y ys where
      "spec_cut_from False (dropWhile is_space cs) = y # ys"
      "spec_cut_from False cs = (takeWhile is_space cs @ y) # ys" by blast
    with True nt show ?thesis by simp
  next
    case False
    obtain y ys where "spec_cut_from False (c # cs) = y # ys"
      by (cases "spec_cut_from (is_terminal c) cs") (simp_all add: False)
    with False show ?thesis by simp
  qed
qed

lemma split_cut_rel:
  "\<exists>x xs ys. re_split_from after text = x # xs \<and> spec_cut_from after text = x # ys \<and>
             list_all2 ws_prefixed xs ys"
proof (induction after "text" rule: re_split_from.induct)
  case (1 after)
  show ?case by simp
next
  case (2 after c cs)
  show ?case
  proof (cases "after \<and> is_space c")
    case True
    then have nt: "\<not> is_terminal c" by (simp add: space_not_terminal)
    from 2(1)[OF True] obtain x xs ys where
      r: "re_split_from False (dropWhile is_space cs) = x # xs" and
      s: "spec_cut_from False (dropWhile is_space cs) = x # ys" and
      rel: "list_all2 ws_prefixed xs ys" by blast
    from spec_cut_skip_ws[of cs] s
    have s': "spec_cut_from False cs = (takeWhile is_space cs @ x) # ys" by simp
    have "ws_prefixed x (c # takeWhile is_space cs @ x)"
      unfolding ws_prefixed_def using True
      by (intro exI[of _ "c # takeWhile is_space cs"]) (auto dest: set_takeWhileD)
    with True nt r s' rel show ?thesis by simp
  next
    case False
    from 2(2)[OF False] obtain x xs ys where
      "re_split_from (is_terminal c) cs = x # xs"
      "spec_cut_from (is_terminal c) cs = x # ys"
      "list_all2 ws_prefixed xs ys" by blast
    with False show ?thesis by auto
  qed
qed

lemma strip_filter_rel:
  "list_all2 ws_prefixed xs ys \<Longrightarrow>
   [strip s. s \<leftarrow> xs, strip s \<noteq> []] = [strip s. s \<leftarrow> ys, strip s \<noteq> []]"
  by (induction rule: list_all2_induct) (auto simp: ws_prefixed_def strip_ws_prefix)

lemma sentence_tokenize_refines: "sentence_tokenize text = spec_sentences text"
proof -
  from split_cut_rel[of False "text"] obtain x xs ys where
    "re_split_from False text = x # xs" "spec_cut_from False text = x # ys"
    "list_all2 ws_prefixed xs ys" by blast
  then show ?thesis
    using strip_filter_rel[of xs ys]
    by (simp add: sentence_tokenize_def spec_sentences_def re_split_sentences_def)
qed

lemma re_split_no_terminal:
  "\<forall>c\<in>set text. \<not> is_terminal c \<Longrightarrow> re_split_from False text = [text]"
  by (induction "text") simp_all

text \<open>
  Claim C8, amended. The segmenter yields the trimmed, non-empty fragments of the text cut
  at every position that follows a terminal mark and is followed by whitespace, in order.
  A text without a terminal mark yields one sentence, its trimmed self, when that is not
  empty, and no sentence when the text is empty or all whitespace; the empty text yields
  no sentence.
\<close>

theorem sentence_tokenize_spec:
  "sentence_tokenize text = spec_sentences text \<and>
   (list_all (\<lambda>c. \<not> is_terminal c) text \<longrightarrow>
      sentence_tokenize text = (if strip text = [] then [] else [strip text])) \<and>
   sentence_tokenize [] = []"
proof -
  have "sentence_tokenize text = (if strip text = [] then [] else [strip text])"
    if "list_all (\<lambda>c. \<not> is_terminal c) text"
    using re_split_no_terminal[of "text"] that
    by (simp add: sentence_tokenize_def re_split_sentences_def list_all_iff)
  moreover have "sentence_tokenize [] = []"
    by (simp add: sentence_tokenize_def re_split_sentences_def strip_def)
  ultimately show ?thesis using sentence_tokenize_refines by blast
qed

text \<open>An instance without a terminal mark.\<close>

theorem sentence_tokenize_spec_witness:
  "list_all (\<lambda>c. \<not> is_terminal c) ''  no end '' \<and>
   sentence_tokenize ''  no end '' = [''no end''] \<and>
   spec_sentences ''  no end '' = [''no end'']"
  using sentence_tokenize_spec [of "''  no end ''"]
  by (auto simp: is_terminal_def strip_def is_space_def code_def)

text \<open>
  The claim as stated fails on a text of one space: it has no terminal mark, and the
  result is the empty sequence, not one sentence.
\<close>

theorem sentence_tokenize_counterexample:
  "list_all (\<lambda>c. \<not> is_terminal c) '' '' \<and> sentence_tokenize '' '' = [] \<and>
   sentence_tokenize '' '' \<noteq> [strip '' '']"
  by (simp add: sentence_tokenize_def re_split_sentences_def strip_def is_space_def code_def
      is_terminal_def)

text \<open>Four sentences, split after each of the three marks.\<close>

lemma sentence_tokenize_example:
  "sentence_tokenize ''Hi there.  How are you?  Fine! ok'' = [''Hi there.'', ''How are you?'', ''Fine!'', ''ok'']"
  by (simp add: sentence_tokenize_def re_split_sentences_def strip_def is_space_def code_def
      is_terminal_def)

section \<open>The word-frequency table\<close>

lemma map_of_counter_add:
  "map_of (counter_add w kvs) k =
     (if k = w then Some (case map_of kvs w of None \<Rightarrow> 1 | Some n \<Rightarrow> n + 1) else map_of kvs k)"
  by (induction kvs) (auto split: option.splits)

lemma keys_counter_add:
  "fst ` set (counter_add w kvs) = insert w (fst ` set kvs)"
  by (induction kvs) (force split: if_splits)+

lemma distinct_counter_add:
  "distinct (map fst kvs) \<Longrightarrow> distinct (map fst (counter_add w kvs))"
  by (induction kvs) (auto simp: keys_counter_add)

lemma map_of_foldl_counter_add:
  "map_of (foldl (\<lambda>acc w. counter_add w acc) kvs ws) k =
     (case map_of kvs k of
        None \<Rightarrow> (if k \<in> set ws then Some (count_list ws k) else None)
      | Some n \<Rightarrow> Some (n + count_list ws k))"
proof (induction ws arbitrary: kvs)
  case Nil
  show ?case by (simp split: option.splits)
next
  case (Cons w ws)
  show ?case
    by (simp add: Cons.IH map_of_counter_add split: option.splits)
qed

lemma map_of_Counter:
  "map_of (Counter ws) k = (if k \<in> set ws then Some (count_list ws k) else None)"
  by (simp add: Counter_def map_of_foldl_counter_add)

lemma distinct_foldl_counter_add:
  "distinct (map fst kvs) \<Longrightarrow> distinct (map fst (foldl (\<lambda>acc w. counter_add w acc) kvs ws))"
  by (induction ws arbitrary: kvs) (simp_all add: distinct_counter_add)

lemma distinct_Counter: "distinct (map fst (Counter ws))"
  by (simp add: Counter_def distinct_foldl_counter_add)

lemma set_Counter: "set (Counter ws) = (\<lambda>w. (w, count_list ws w)) ` set ws"
proof -
  have "(k, n) \<in> set (Counter ws) \<longleftrightarrow> k \<in> set ws \<and> n = count_list ws k" for k n
    unfolding map_of_eq_Some_iff[OF distinct_Counter, symmetric] map_of_Counter
    by auto
  then show ?thesis by auto
qed

lemma Counter_Nil_iff: "Counter ws = [] \<longleftrightarrow> ws = []"
  using set_Counter[of ws] by (metis image_is_empty set_empty)

lemma max_freq_Counter:
  "ws \<noteq> [] \<Longrightarrow> max_freq (Counter ws) = Max (count_list ws ` set ws)"
proof -
  assume ne: "ws \<noteq> []"
  then obtain kv kvs where c: "Counter ws = kv # kvs"
    by (cases "Counter ws") (simp_all add: Counter_Nil_iff)
  have "fold max (map snd kvs) (snd kv) = Max (set (snd kv # map snd kvs))"
    by (rule Max.set_eq_fold[symmetric])
  then have "max_freq (Counter ws) = Max (set (map snd (Counter ws)))"
    by (simp add: max_freq_def c)
  also have "set (map snd (Counter ws)) = count_list ws ` set ws"
    by (simp add: set_Counter image_image)
  finally show ?thesis .
qed

lemma max_freq_empty: "max_freq (Counter []) = 1"
  by (simp add: max_freq_def Counter_def)

lemma max_freq_pos: "0 < max_freq (Counter ws)"
proof (cases "ws = []")
  case True
  then show ?thesis by (simp add: max_freq_empty)
next
  case False
  then obtain w where w: "w \<in> set ws" by (cases ws) auto
  have "count_list ws w \<le> Max (count_list ws ` set ws)" using w by simp
  moreover have "0 < count_list ws w" using w count_list_0_iff[of ws w] by auto
  ultimately show ?thesis using False by (simp add: max_freq_Counter)
qed

lemma traverse_Inr:
  "\<forall>x\<in>set xs. f x = Inr (g x) \<Longrightarrow> traverse f xs = Inr (map g xs)"
  by (induction xs) simp_all

lemma word_freq_table_eq:
  "word_freq_table sentences =
     Inr (map (\<lambda>(w, n). (w, of_nat n / of_nat (max_freq (Counter (content_words sentences)))))
            (Counter (content_words sentences)))"
proof -
  have "max_freq (Counter (content_words sentences)) \<noteq> 0"
    using max_freq_pos[of "content_words sentences"] by simp
  then show ?thesis
    unfolding word_freq_table_def Let_def
    by (intro traverse_Inr) (auto simp: truediv_def)
qed


lemma lower_char_idem: "lower_char (lower_char c) = lower_char c"
  by (auto simp: lower_char_def code_def Let_def)

lemma findall_words_chars: "w \<in> set (findall_words s) \<Longrightarrow> set w \<subseteq> set s"
proof (induction s rule: findall_words.induct)
  case 1
  then show ?case by simp
next
  case (2 c cs)
  note step = 2
  show ?case
  proof (cases "is_word c")
    case True
    with step(3) consider "w = c # takeWhile is_word cs" | "w \<in> set (findall_words (dropWhile is_word cs))"
      by auto
    then show ?thesis
    proof cases
      case 1
      then show ?thesis by (auto dest: set_takeWhileD)
    next
      case 2
      with step(1)[OF True] have "set w \<subseteq> set (dropWhile is_word cs)" by simp
      then show ?thesis by (auto dest: set_dropWhileD)
    qed
  next
    case False
    with step(2)[OF False] step(3) show ?thesis by auto
  qed
qed

lemma all_words_lower: "w \<in> set (all_words sentences) \<Longrightarrow> lower w = w"
proof -
  assume "w \<in> set (all_words sentences)"
  then obtain s where "w \<in> set (findall_words (lower s))"
    by (auto simp: all_words_def)
  then have "set w \<subseteq> lower_char ` set s"
    using findall_words_chars[of w "lower s"] by (simp add: lower_def)
  then have "\<forall>c\<in>set w. lower_char c = c" by (auto simp: lower_char_idem)
  then show ?thesis by (simp add: lower_def map_idI)
qed

text \<open>
  Claim C6. Building the table never raises. Its keys are the surviving tokens (tokens of
  the lowercased sentences, lowercase, not stop words, longer than two characters); each
  is mapped to its count over the whole document divided by \<open>m\<close>, the largest count, or
  1 when no token survives, in which case the table is empty. Every stored frequency lies
  in (0, 1], and every token whose count is the largest has frequency exactly 1.
\<close>

theorem word_freq_table_normalised:
  "let cw = content_words sentences; m = max_freq (Counter cw) in
   \<exists>tbl. word_freq_table sentences = Inr tbl \<and>
     (\<forall>w\<in>set cw. w \<in> set (all_words sentences) \<and> lower w = w \<and> w \<notin> stop_words \<and> 2 < length w) \<and>
     (\<forall>w. map_of tbl w =
        (if w \<in> set cw then Some (of_nat (count_list cw w) / of_nat m) else None)) \<and>
     (cw \<noteq> [] \<longrightarrow> m = Max (count_list cw ` set cw)) \<and>
     (cw = [] \<longrightarrow> m = 1 \<and> tbl = []) \<and>
     (\<forall>(w, f)\<in>set tbl. 0 < f \<and> f \<le> 1) \<and>
     (\<forall>w\<in>set cw. count_list cw w = m \<longrightarrow> map_of tbl w = Some 1) \<and>
     (tbl \<noteq> [] \<longrightarrow> (\<exists>w. map_of tbl w = Some 1))"
proof -
  define cw where "cw = content_words sentences"
  define m where "m = max_freq (Counter cw)"
  define tbl where "tbl = map (\<lambda>(w, n). (w, rat_of_nat n / rat_of_nat m)) (Counter cw)"
  have mpos: "0 < m" unfolding m_def by (rule max_freq_pos)
  have run: "word_freq_table sentences = Inr tbl"
    unfolding tbl_def m_def cw_def by (rule word_freq_table_eq)
  have surv: "\<forall>w\<in>set cw. w \<in> set (all_words sentences) \<and> lower w = w \<and> w \<notin> stop_words \<and> 2 < length w"
    unfolding cw_def content_words_def by (auto simp: all_words_lower)
  have look: "map_of tbl w =
      (if w \<in> set cw then Some (of_nat (count_list cw w) / of_nat m) else None)" for w
  proof -
    have "map_of tbl w = map_option (\<lambda>n. rat_of_nat n / rat_of_nat m) (map_of (Counter cw) w)"
      unfolding tbl_def by (simp add: map_of_map)
    then show ?thesis by (simp add: map_of_Counter)
  qed
  have mx: "m = Max (count_list cw ` set cw)" if "cw \<noteq> []"
    unfolding m_def using that by (rule max_freq_Counter)
  have emp: "m = 1 \<and> tbl = []" if "cw = []"
    using that by (simp add: m_def tbl_def max_freq_def Counter_def)
  have le: "count_list cw w \<le> m" if "w \<in> set cw" for w
  proof -
    have "cw \<noteq> []" using that by auto
    then have "m = Max (count_list cw ` set cw)" by (rule mx)
    then show ?thesis using that by simp
  qed
  have range: "\<forall>(w, f)\<in>set tbl. 0 < f \<and> f \<le> 1"
  proof (clarify)
    fix w f assume "(w, f) \<in> set tbl"
    then obtain n where n: "(w, n) \<in> set (Counter cw)" and f: "f = rat_of_nat n / rat_of_nat m"
      unfolding tbl_def by auto
    from n have w: "w \<in> set cw" and nc: "n = count_list cw w" by (auto simp: set_Counter)
    have "0 < n" using w nc count_list_0_iff[of cw w] by auto
    moreover have "n \<le> m" using le[OF w] nc by simp
    ultimately show "0 < f \<and> f \<le> 1" using mpos f by simp
  qed
  have top: "\<forall>w\<in>set cw. count_list cw w = m \<longrightarrow> map_of tbl w = Some 1"
    using mpos by (simp add: look)
  have ex: "\<exists>w. map_of tbl w = Some 1" if "tbl \<noteq> []"
  proof -
    have ne: "cw \<noteq> []" using that emp by blast
    then have "Max (count_list cw ` set cw) \<in> count_list cw ` set cw"
      by (intro Max_in) auto
    then obtain w where "w \<in> set cw" "count_list cw w = m" using mx[OF ne] by auto
    with top show ?thesis by blast
  qed
  show ?thesis
    unfolding Let_def cw_def[symmetric] m_def[symmetric]
    using run surv look mx emp range top ex by blast
qed

text \<open>The table of a document of three sentences.\<close>

lemma word_freq_table_example:
  "word_freq_table [''The cat sat.'', ''2024 was a good year.'', ''The cat sat.''] =
     Inr [(''cat'', 1), (''sat'', 1), (''2024'', 1 / 2), (''good'', 1 / 2), (''year'', 1 / 2)]"
  by code_simp

text \<open>An instance: the most frequent token, a stop word, and a token seen once.\<close>

theorem word_freq_table_normalised_witness:
  "\<exists>tbl. word_freq_table [''The cat sat.'', ''2024 was a good year.'', ''The cat sat.''] = Inr tbl \<and>
     map_of tbl ''cat'' = Some 1 \<and> map_of tbl ''the'' = None \<and> map_of tbl ''year'' = Some (1 / 2)"
  using word_freq_table_normalised [of "[''The cat sat.'', ''2024 was a good year.'', ''The cat sat.'']"]
    word_freq_table_example
  by simp

section \<open>Sentence scores\<close>

lemma fold_add_word:
  "fold (add_word word_freq) ws a =
     a + (\<Sum>w\<leftarrow>ws. case map_of word_freq w of Some f \<Rightarrow> f | None \<Rightarrow> 0)"
  by (induction ws arbitrary: a) (simp_all add: add_word_def split: option.splits)

lemma sentence_score_eq:
  "sentence_score word_freq n i sentence =
     (\<Sum>w\<leftarrow>findall_words (lower sentence). case map_of word_freq w of Some f \<Rightarrow> f | None \<Rightarrow> 0)
       * (if i < 3 \<or> int n - 3 \<le> int i then 12 / 10 else 1)
       * (if list_ex is_digit sentence then 11 / 10 else 1)"
  by (simp add: sentence_score_def Let_def fold_add_word search_digit_def)

lemma map_of_enumerate_map:
  "i < length xs \<Longrightarrow>
   map_of (map (\<lambda>(i, x). (i, F i x)) (enumerate 0 xs)) i = Some (F i (xs ! i))"
proof -
  assume i: "i < length xs"
  let ?ps = "map (\<lambda>(i, x). (i, F i x)) (enumerate 0 xs)"
  have "map fst ?ps = map fst (enumerate 0 xs)"
    by (simp add: case_prod_unfold comp_def)
  then have keys: "map fst ?ps = [0..<length xs]" by simp
  have "?ps ! i = (i, F i (xs ! i))" using i by (simp add: nth_enumerate_eq)
  moreover have "i < length ?ps" using i by simp
  ultimately have "(i, F i (xs ! i)) \<in> set ?ps" by (metis nth_mem)
  moreover have "distinct (map fst ?ps)" by (simp only: keys distinct_upt)
  ultimately show ?thesis by (rule map_of_is_SomeI[rotated])
qed

lemma calculate_sentence_scores_eq:
  "\<exists>word_freq. word_freq_table sentences = Inr word_freq \<and>
     calculate_sentence_scores sentences =
       Inr (map (\<lambda>(i, sentence). (i, sentence_score word_freq (length sentences) i sentence))
              (enumerate 0 sentences))"
  by (simp add: calculate_sentence_scores_def word_freq_table_eq)

lemma calculate_sentence_scores_keys:
  "\<exists>scores. calculate_sentence_scores sentences = Inr scores \<and>
            map fst scores = [0..<length sentences]"
proof -
  from calculate_sentence_scores_eq[of sentences] obtain word_freq where
    "calculate_sentence_scores sentences =
       Inr (map (\<lambda>(i, sentence). (i, sentence_score word_freq (length sentences) i sentence))
              (enumerate 0 sentences))" by blast
  moreover have "map fst (map (\<lambda>(i, sentence). (i, sentence_score word_freq (length sentences) i sentence))
              (enumerate 0 sentences)) = map fst (enumerate 0 sentences)"
    by (simp add: case_prod_unfold comp_def)
  ultimately show ?thesis by simp
qed

text \<open>
  Claim C4. Scoring never raises, and the score stored for the sentence at index \<open>i\<close> of
  \<open>n\<close> sentences is the sum, over all word tokens of the lowercased sentence, of the
  table's value (0 for a token that is not a key), times 1.2 if \<open>i < 3\<close> or
  \<open>i \<ge> n - 3\<close>, times 1.1 if the sentence holds a decimal digit: a function of the
  sentence, its position and the table alone.
\<close>

theorem sentence_score_formula:
  "\<exists>word_freq scores.
     word_freq_table sentences = Inr word_freq \<and>
     calculate_sentence_scores sentences = Inr scores \<and>
     (\<forall>i<length sentences. map_of scores i = Some (
        (\<Sum>w\<leftarrow>findall_words (lower (sentences ! i)).
            case map_of word_freq w of Some f \<Rightarrow> f | None \<Rightarrow> 0)
        * (if i < 3 \<or> int (length sentences) - 3 \<le> int i then 12 / 10 else 1)
        * (if list_ex is_digit (sentences ! i) then 11 / 10 else 1)))"
proof -
  from calculate_sentence_scores_eq[of sentences] obtain word_freq where
    t: "word_freq_table sentences = Inr word_freq" and
    s: "calculate_sentence_scores sentences =
       Inr (map (\<lambda>(i, sentence). (i, sentence_score word_freq (length sentences) i sentence))
              (enumerate 0 sentences))" by blast
  let ?scores = "map (\<lambda>(i, sentence). (i, sentence_score word_freq (length sentences) i sentence))
                  (enumerate 0 sentences)"
  have "map_of ?scores i = Some (
        (\<Sum>w\<leftarrow>findall_words (lower (sentences ! i)).
            case map_of word_freq w of Some f \<Rightarrow> f | None \<Rightarrow> 0)
        * (if i < 3 \<or> int (length sentences) - 3 \<le> int i then 12 / 10 else 1)
        * (if list_ex is_digit (sentences ! i) then 11 / 10 else 1))"
    if "i < length sentences" for i
    using map_of_enumerate_map[OF that, of "sentence_score word_freq (length sentences)"]
    by (simp only: sentence_score_eq)
  with t s show ?thesis by blast
qed

text \<open>The scores of three sentences, and of seven where index 3 has no positional bonus.\<close>

lemma calculate_sentence_scores_example:
  "calculate_sentence_scores [''The cat sat.'', ''2024 was a good year.'', ''The cat sat.''] =
     Inr [(0, 12 / 5), (1, 99 / 50), (2, 12 / 5)]"
  by code_simp

lemma calculate_sentence_scores_example7:
  "calculate_sentence_scores [''cat'', ''cat'', ''cat'', ''cat'', ''cat 1'', ''cat'', ''cat''] =
     Inr [(0, 6 / 5), (1, 6 / 5), (2, 6 / 5), (3, 1), (4, 33 / 25), (5, 6 / 5), (6, 6 / 5)]"
  by code_simp

text \<open>An instance: three tokens of frequency one half, both bonuses.\<close>

theorem sentence_score_formula_witness:
  "\<exists>word_freq scores.
     word_freq_table [''The cat sat.'', ''2024 was a good year.'', ''The cat sat.''] = Inr word_freq \<and>
     calculate_sentence_scores [''The cat sat.'', ''2024 was a good year.'', ''The cat sat.''] = Inr scores \<and>
     map_of scores 1 = Some ((1 / 2 + 1 / 2 + 1 / 2) * (12 / 10) * (11 / 10))"
  using sentence_score_formula [of "[''The cat sat.'', ''2024 was a good year.'', ''The cat sat.'']"]
    calculate_sentence_scores_example word_freq_table_example
  by simp

section \<open>Ranking and selection\<close>

text \<open>Insertion sort by key keeps the order of elements with equal keys.\<close>

lemma insort_key_stable:
  fixes f :: "'a \<Rightarrow> 'b::linorder"
  assumes "sorted_wrt (\<lambda>x y. f x < f y \<or> (f x = f y \<and> R x y)) ys"
    and "\<forall>z\<in>set ys. R x z"
  shows "sorted_wrt (\<lambda>x y. f x < f y \<or> (f x = f y \<and> R x y)) (insort_key f x ys)"
  using assms
proof (induction ys)
  case Nil
  show ?case by simp
next
  case (Cons y ys)
  show ?case
  proof (cases "f x \<le> f y")
    case True
    have "f x < f z \<or> (f x = f z \<and> R x z)" if "z \<in> set (y # ys)" for z
    proof -
      have "f y \<le> f z" using that Cons.prems(1) by auto
      with True have "f x \<le> f z" by simp
      moreover have "R x z" using that Cons.prems(2) by auto
      ultimately show ?thesis by auto
    qed
    with True Cons.prems(1) show ?thesis by simp
  next
    case False
    have "sorted_wrt (\<lambda>x y. f x < f y \<or> (f x = f y \<and> R x y)) (insort_key f x ys)"
      using Cons by simp
    with False Cons.prems(1) show ?thesis by (auto simp: set_insort_key)
  qed
qed

lemma sort_key_stable_wrt:
  fixes f :: "'a \<Rightarrow> 'b::linorder"
  shows "sorted_wrt R xs \<Longrightarrow>
         sorted_wrt (\<lambda>x y. f x < f y \<or> (f x = f y \<and> R x y)) (sort_key f xs)"
proof (induction xs)
  case Nil
  show ?case by simp
next
  case (Cons x xs)
  then have "sorted_wrt (\<lambda>x y. f x < f y \<or> (f x = f y \<and> R x y)) (sort_key f xs)"
    and "\<forall>z\<in>set (sort_key f xs). R x z" by simp_all
  then show ?case by (simp add: sort_key_simps insort_key_stable)
qed

lemma ranked_pairs_sorted:
  fixes scores :: "(nat \<times> rat) list"
  assumes "sorted_wrt (\<lambda>p q. fst p < fst q) scores"
  shows "sorted_wrt (\<lambda>p q. snd q < snd p \<or> (snd p = snd q \<and> fst p < fst q))
           (rev (sort_key snd (rev scores)))"
proof -
  have "sorted_wrt (\<lambda>p q. fst q < fst p) (rev scores)"
    using assms by (simp add: sorted_wrt_rev)
  then have "sorted_wrt (\<lambda>p q. snd p < snd q \<or> (snd p = snd q \<and> fst q < fst p))
               (sort_key snd (rev scores))"
    by (rule sort_key_stable_wrt)
  then have "sorted_wrt (\<lambda>q p. snd p < snd q \<or> (snd p = snd q \<and> fst q < fst p))
               (rev (sort_key snd (rev scores)))"
    by (simp add: sorted_wrt_rev)
  then show ?thesis
    by (rule sorted_wrt_mono_rel[rotated]) auto
qed


lemma ranking_generic:
  fixes scores :: "(nat \<times> rat) list"
  assumes keys: "map fst scores = [0..<n]"
  defines "ranked \<equiv> sorted_reverse scores"
  shows "length ranked = n" and "set ranked = {0..<n}" and "distinct ranked"
    and "\<And>a b. a < b \<Longrightarrow> b < length ranked \<Longrightarrow>
          \<exists>x y. map_of scores (ranked ! a) = Some x \<and> map_of scores (ranked ! b) = Some y \<and>
                (y < x \<or> (x = y \<and> ranked ! a < ranked ! b))"
proof -
  let ?R = "rev (sort_key snd (rev scores))"
  have dk: "distinct (map fst scores)" by (simp add: keys)
  have srt: "sorted_wrt (\<lambda>p q. fst p < fst q) scores"
  proof -
    have "sorted_wrt (<) (map fst scores)" by (simp add: keys)
    then show ?thesis by (simp add: sorted_wrt_map)
  qed
  have setR: "set ?R = set scores" by simp
  have r: "ranked = map fst ?R" by (simp add: ranked_def sorted_reverse_def)
  have len: "length scores = n" using arg_cong[OF keys, of length] by simp
  show "length ranked = n" by (simp add: r len)
  have "set ranked = fst ` set scores" by (simp add: r)
  also have "\<dots> = set (map fst scores)" by simp
  finally show "set ranked = {0..<n}" by (simp add: keys)
  have "inj_on fst (set scores)" using dk by (simp add: distinct_map)
  moreover have "distinct ?R" using dk by (simp add: distinct_map)
  ultimately show "distinct ranked" by (simp add: r distinct_map)
  fix a b assume ab: "a < b" "b < length ranked"
  then have lb: "b < length ?R" and la: "a < length ?R" by (simp_all add: r)
  from ranked_pairs_sorted[OF srt] ab(1) lb
  have ord: "snd (?R ! b) < snd (?R ! a) \<or>
             (snd (?R ! a) = snd (?R ! b) \<and> fst (?R ! a) < fst (?R ! b))"
    by (simp add: sorted_wrt_iff_nth_less)
  have look: "map_of scores (fst (?R ! c)) = Some (snd (?R ! c))" if "c < length ?R" for c
  proof -
    have "?R ! c \<in> set scores" using that setR nth_mem by blast
    then show ?thesis using dk by (metis map_of_is_SomeI prod.collapse)
  qed
  have "ranked ! a = fst (?R ! a)" "ranked ! b = fst (?R ! b)"
    using la lb by (simp_all add: r)
  with look[OF la] look[OF lb] ord
  show "\<exists>x y. map_of scores (ranked ! a) = Some x \<and> map_of scores (ranked ! b) = Some y \<and>
                (y < x \<or> (x = y \<and> ranked ! a < ranked ! b))"
    by auto
qed


lemma py_int_mono: "x \<le> y \<Longrightarrow> py_int x \<le> py_int y"
proof -
  assume xy: "x \<le> y"
  consider "0 \<le> x" | "x < 0" "0 \<le> y" | "y < 0" using xy by linarith
  then show ?thesis
  proof cases
    case 1
    with xy show ?thesis by (simp add: py_int_def floor_mono)
  next
    case 2
    then have "\<lceil>x\<rceil> \<le> 0" and "0 \<le> \<lfloor>y\<rfloor>" by (simp_all add: ceiling_le_zero)
    then have "\<lceil>x\<rceil> \<le> \<lfloor>y\<rfloor>" by linarith
    with 2 show ?thesis by (simp add: py_int_def)
  next
    case 3
    with xy show ?thesis by (simp add: py_int_def ceiling_mono)
  qed
qed

lemma num_sentences_ge1: "1 \<le> num_sentences n r"
  by (simp add: num_sentences_def)

lemma num_sentences_mono: "r1 \<le> r2 \<Longrightarrow> num_sentences n r1 \<le> num_sentences n r2"
proof -
  assume "r1 \<le> r2"
  then have "of_nat n * r1 \<le> of_nat n * r2" by (simp add: mult_left_mono)
  then show ?thesis unfolding num_sentences_def using py_int_mono by fastforce
qed

lemma subseq_map_nth:
  "sorted_wrt (<) js \<Longrightarrow> \<forall>i\<in>set js. i < m \<Longrightarrow> m \<le> length xs \<Longrightarrow>
   subseq (map ((!) xs) js) (take m xs)"
proof (induction js arbitrary: m rule: rev_induct)
  case Nil
  show ?case by simp
next
  case (snoc i js)
  from snoc.prems(1) have sj: "sorted_wrt (<) js" and lt: "\<forall>j\<in>set js. j < i"
    by (simp_all add: sorted_wrt_append)
  from snoc.prems(2,3) have im: "i < m" and il: "i < length xs" by auto
  have "subseq (map ((!) xs) js) (take i xs)"
    using snoc.IH[OF sj lt] il by simp
  then have "subseq (map ((!) xs) js @ [xs ! i]) (take i xs @ [xs ! i])"
    by (simp add: list_emb_append_mono)
  then have a: "subseq (map ((!) xs) (js @ [i])) (take (Suc i) xs)"
    using il by (simp add: take_Suc_conv_app_nth)
  have "take (Suc i) xs = take (Suc i) (take m xs)" using im by (simp add: min_def)
  then have "prefix (take (Suc i) xs) (take m xs)" by (metis take_is_prefix)
  then have "subseq (take (Suc i) xs) (take m xs)" by (rule prefix_imp_subseq)
  with a show ?case by (rule subseq_order.trans)
qed

lemma top_indices_props:
  fixes scores :: "(nat \<times> rat) list"
  assumes keys: "map fst scores = [0..<n]" and k: "1 \<le> k"
  shows "sorted_wrt (<) (top_indices scores k)"
    and "set (top_indices scores k) \<subseteq> {0..<n}"
    and "length (top_indices scores k) = min (nat k) n"
proof -
  have sl: "slice_to k (sorted_reverse scores) = take (nat k) (sorted_reverse scores)"
    using k by (simp add: slice_to_def)
  have "distinct (take (nat k) (sorted_reverse scores))"
    using ranking_generic(3)[OF keys] by simp
  then show "sorted_wrt (<) (top_indices scores k)"
    by (simp add: top_indices_def sl strict_sorted_iff)
  have "set (take (nat k) (sorted_reverse scores)) \<subseteq> set (sorted_reverse scores)"
    by (rule set_take_subset)
  then show "set (top_indices scores k) \<subseteq> {0..<n}"
    using ranking_generic(2)[OF keys] by (simp add: top_indices_def sl)
  show "length (top_indices scores k) = min (nat k) n"
    using ranking_generic(1)[OF keys] by (simp add: top_indices_def sl min_def)
qed

lemma selected_sentences_eq:
  "\<exists>scores. calculate_sentence_scores sentences = Inr scores \<and>
     map fst scores = [0..<length sentences] \<and>
     selected_sentences sentences r =
       Inr (map ((!) sentences) (top_indices scores (num_sentences (length sentences) r)))"
proof -
  from calculate_sentence_scores_keys[of sentences] obtain scores where
    c: "calculate_sentence_scores sentences = Inr scores" and
    keys: "map fst scores = [0..<length sentences]" by blast
  let ?idx = "top_indices scores (num_sentences (length sentences) r)"
  have "\<forall>i\<in>set ?idx. getitem sentences i = Inr (sentences ! i)"
    using top_indices_props(2)[OF keys num_sentences_ge1, of "length sentences" r]
    by (auto simp: getitem_def)
  then have "traverse (getitem sentences) ?idx = Inr (map ((!) sentences) ?idx)"
    by (rule traverse_Inr)
  with c keys show ?thesis by (simp add: selected_sentences_def)
qed



text \<open>Three scores with a tie between the first and the last index.\<close>

lemma sorted_reverse_example:
  "sorted_reverse [(0, 12 / 5), (1, 99 / 50), (2, 12 / 5)] = [0, 2, 1]"
  by code_simp




text \<open>
  Claim C9. For a fixed sentence sequence the number of sentences kept does not decrease
  when the ratio grows; this holds for all ratios, those in (0, 1] among them.
\<close>

theorem retained_count_monotone:
  assumes "r1 \<le> r2"
  shows "\<exists>c1 c2. selected_sentences sentences r1 = Inr c1 \<and>
           selected_sentences sentences r2 = Inr c2 \<and> length c1 \<le> length c2"
proof -
  let ?n = "length sentences"
  from selected_sentences_eq[of sentences r1] obtain scores where
    c: "calculate_sentence_scores sentences = Inr scores" and
    keys: "map fst scores = [0..<?n]" and
    s1: "selected_sentences sentences r1 =
            Inr (map ((!) sentences) (top_indices scores (num_sentences ?n r1)))" by blast
  from selected_sentences_eq[of sentences r2] c
  have s2: "selected_sentences sentences r2 =
            Inr (map ((!) sentences) (top_indices scores (num_sentences ?n r2)))" by auto
  have "nat (num_sentences ?n r1) \<le> nat (num_sentences ?n r2)"
    using num_sentences_mono[OF assms, of ?n] by (rule nat_mono)
  then have "min (nat (num_sentences ?n r1)) ?n \<le> min (nat (num_sentences ?n r2)) ?n"
    by (auto simp: min_def)
  then have "length (top_indices scores (num_sentences ?n r1)) \<le>
             length (top_indices scores (num_sentences ?n r2))"
    by (simp only: top_indices_props(3)[OF keys num_sentences_ge1])
  with s1 s2 show ?thesis by simp
qed

text \<open>An instance: ratios 0.34 and 1.\<close>

theorem retained_count_monotone_witness:
  "\<exists>c1 c2. selected_sentences [''The cat sat.'', ''2024 was a good year.'', ''The cat sat.'']
              (34 / 100) = Inr c1 \<and>
     selected_sentences [''The cat sat.'', ''2024 was a good year.'', ''The cat sat.''] 1 = Inr c2 \<and>
     length c1 \<le> length c2"
  using retained_count_monotone
    [of "34 / 100" 1 "[''The cat sat.'', ''2024 was a good year.'', ''The cat sat.'']"]
  by simp

text \<open>
  Claim C7. For every text and every ratio the selector never raises; the sentences it
  keeps are those at a strictly ascending list of indices, hence a subsequence of the
  segmented sentences in document order, and the summary is these sentences joined by one
  space (the text itself when there is no sentence).
\<close>

theorem summary_preserves_order:
  "\<exists>idx. sorted_wrt (<) idx \<and> set idx \<subseteq> {0..<length (sentence_tokenize text)} \<and>
     selected_sentences (sentence_tokenize text) r = Inr (map ((!) (sentence_tokenize text)) idx) \<and>
     subseq (map ((!) (sentence_tokenize text)) idx) (sentence_tokenize text) \<and>
     extractive_summarize text r =
       Inr (if sentence_tokenize text = [] then text
            else join '' '' (map ((!) (sentence_tokenize text)) idx))"
proof -
  let ?s = "sentence_tokenize text"
  from selected_sentences_eq[of ?s r] obtain scores where
    keys: "map fst scores = [0..<length ?s]" and
    sel: "selected_sentences ?s r =
            Inr (map ((!) ?s) (top_indices scores (num_sentences (length ?s) r)))" by blast
  let ?idx = "top_indices scores (num_sentences (length ?s) r)"
  note srt = top_indices_props(1)[OF keys num_sentences_ge1, of "length ?s" r]
    and sub = top_indices_props(2)[OF keys num_sentences_ge1, of "length ?s" r]
  have "subseq (map ((!) ?s) ?idx) (take (length ?s) ?s)"
    using srt sub by (intro subseq_map_nth) auto
  then have sq: "subseq (map ((!) ?s) ?idx) ?s" by simp
  have "extractive_summarize text r =
       Inr (if ?s = [] then text else join '' '' (map ((!) ?s) ?idx))"
    by (simp add: extractive_summarize_def Let_def sel)
  with srt sub sel sq show ?thesis by blast
qed

text \<open>Five sentences at ratio 0.6: ranked 1, 3, 0 and put back in the order 0, 1, 3.\<close>

lemma extractive_summarize_example:
  "extractive_summarize ''One cat sat. Two dogs ran 5 miles. Birds. The cat and dogs met. Bye.'' (3 / 5) =
     Inr ''One cat sat. Two dogs ran 5 miles. The cat and dogs met.''"
  by code_simp

text \<open>An instance on the same five sentences.\<close>

theorem summary_preserves_order_witness:
  "\<exists>idx. sorted_wrt (<) idx \<and>
     extractive_summarize ''One cat sat. Two dogs ran 5 miles. Birds. The cat and dogs met. Bye.'' (3 / 5) =
       Inr (join '' '' (map ((!) [''One cat sat.'', ''Two dogs ran 5 miles.'', ''Birds.'',
                                   ''The cat and dogs met.'', ''Bye.'']) idx))"
proof -
  have t: "sentence_tokenize ''One cat sat. Two dogs ran 5 miles. Birds. The cat and dogs met. Bye.'' =
        [''One cat sat.'', ''Two dogs ran 5 miles.'', ''Birds.'', ''The cat and dogs met.'', ''Bye.'']"
    by code_simp
  from summary_preserves_order
      [of "''One cat sat. Two dogs ran 5 miles. Birds. The cat and dogs met. Bye.''" "3 / 5"]
  obtain idx where "sorted_wrt (<) idx" and
    "extractive_summarize ''One cat sat. Two dogs ran 5 miles. Birds. The cat and dogs met. Bye.'' (3 / 5) =
       Inr (if sentence_tokenize ''One cat sat. Two dogs ran 5 miles. Birds. The cat and dogs met. Bye.'' = []
            then ''One cat sat. Two dogs ran 5 miles. Birds. The cat and dogs met. Bye.''
            else join '' '' (map ((!) (sentence_tokenize
              ''One cat sat. Two dogs ran 5 miles. Birds. The cat and dogs met. Bye.'')) idx))"
    by blast
  then show ?thesis unfolding t by (intro exI[of _ idx]) simp
qed

section \<open>The ceiling of the simple path\<close>

lemma estimate_tokens_take:
  assumes "0 \<le> m" and "m < estimate_tokens t"
  shows "estimate_tokens (take (nat (m * 4)) t) = m"
proof -
  have "m < int (length t) div 4" using assms(2) by (simp add: estimate_tokens_def)
  then have "m * 4 < int (length t)" by linarith
  then have "length (take (nat (m * 4)) t) = nat (m * 4)" by simp
  then have "estimate_tokens (take (nat (m * 4)) t) = int (nat (m * 4)) div 4"
    by (simp only: estimate_tokens_def)
  also have "\<dots> = m" using assms(1) by simp
  finally show ?thesis .
qed

lemma PDFCompressor_compress_eq:
  "estimate_tokens extracted \<noteq> 0 \<Longrightarrow>
   PDFCompressor_compress max_tokens extracted =
     (let t = compress_abbreviations (remove_redundancy (clean_text extracted));
          out = (if max_tokens < estimate_tokens t then slice_to (max_tokens * 4) t else t)
      in Inr \<lparr>compressed = out, original_tokens = estimate_tokens extracted,
              final_tokens = estimate_tokens out\<rparr>)"
  by (simp add: PDFCompressor_compress_def Let_def truediv_def)

lemma PDFCompressor_compress_zero:
  "estimate_tokens extracted = 0 \<Longrightarrow>
   PDFCompressor_compress max_tokens extracted = Inl ZeroDivisionError"
  by (simp add: PDFCompressor_compress_def Let_def truediv_def)

text \<open>One long sentence passes the advanced path whole, three tokens under a ceiling of one.\<close>

lemma advanced_exceeds_ceiling:
  "AdvancedPDFCompressor_compress 1 (1 / 2) ''abcdefghijkl'' =
     Inr \<lparr>compressed = ''abcdefghijkl'', original_tokens = 3, final_tokens = 3\<rparr>"
  by code_simp

text \<open>A run of the simple path that truncates to eight characters.\<close>

lemma PDFCompressor_compress_example:
  "PDFCompressor_compress 2 ''one and two with three   and -------- four'' =
     Inr \<lparr>compressed = ''one & tw'', original_tokens = 10, final_tokens = 2\<rparr>"
  by code_simp

text \<open>
  The hypothesis on the ceiling is needed: with a negative ceiling the slice counts from the
  end of the text and the estimate stays above the ceiling.
\<close>

lemma PDFCompressor_compress_negative_ceiling:
  "PDFCompressor_compress (- 1) ''abcdefgh'' =
     Inr \<lparr>compressed = ''abcd'', original_tokens = 2, final_tokens = 1\<rparr>"
  by code_simp

text \<open>
  Claim C10. With a ceiling that is not negative, the simple \<^verbatim>\<open>compress\<close> returns
  whenever the original estimate is not 0, and whatever it returns has an estimate of at
  most \<open>max_tokens\<close>: when the estimate after abbreviation exceeds the ceiling the text is
  cut to its first \<open>max_tokens * 4\<close> characters and the estimate is exactly the ceiling,
  otherwise the text is returned as it is. The advanced path gives no such bound: the last
  conjunct is a run of it that returns three tokens under a ceiling of one.
\<close>

theorem simple_compress_ceiling:
  assumes "0 \<le> max_tokens"
  shows "(estimate_tokens extracted \<noteq> 0 \<longrightarrow>
            (\<exists>res. PDFCompressor_compress max_tokens extracted = Inr res)) \<and>
         (\<forall>res. PDFCompressor_compress max_tokens extracted = Inr res \<longrightarrow>
            estimate_tokens (compressed res) \<le> max_tokens \<and>
            final_tokens res = estimate_tokens (compressed res) \<and>
            (let t = compress_abbreviations (remove_redundancy (clean_text extracted)) in
               (max_tokens < estimate_tokens t \<longrightarrow>
                  compressed res = take (nat (max_tokens * 4)) t \<and>
                  estimate_tokens (compressed res) = max_tokens) \<and>
               (estimate_tokens t \<le> max_tokens \<longrightarrow> compressed res = t))) \<and>
         (\<exists>res. AdvancedPDFCompressor_compress 1 (1 / 2) ''abcdefghijkl'' = Inr res \<and>
                1 < estimate_tokens (compressed res))"
proof -
  let ?t = "compress_abbreviations (remove_redundancy (clean_text extracted))"
  let ?out = "if max_tokens < estimate_tokens ?t then slice_to (max_tokens * 4) ?t else ?t"
  have sl: "slice_to (max_tokens * 4) ?t = take (nat (max_tokens * 4)) ?t"
    using assms by (simp add: slice_to_def)
  have ret: "\<exists>res. PDFCompressor_compress max_tokens extracted = Inr res"
    if "estimate_tokens extracted \<noteq> 0"
    using PDFCompressor_compress_eq[OF that, of max_tokens] by (simp add: Let_def)
  have bound: "estimate_tokens (compressed res) \<le> max_tokens \<and>
            final_tokens res = estimate_tokens (compressed res) \<and>
            (let t = ?t in
               (max_tokens < estimate_tokens t \<longrightarrow>
                  compressed res = take (nat (max_tokens * 4)) t \<and>
                  estimate_tokens (compressed res) = max_tokens) \<and>
               (estimate_tokens t \<le> max_tokens \<longrightarrow> compressed res = t))"
    if r: "PDFCompressor_compress max_tokens extracted = Inr res" for res
  proof -
    have nz: "estimate_tokens extracted \<noteq> 0"
      using r PDFCompressor_compress_zero[of extracted max_tokens] by auto
    from PDFCompressor_compress_eq[OF nz, of max_tokens] r
    have c: "compressed res = ?out" and f: "final_tokens res = estimate_tokens ?out"
      by (auto simp: Let_def)
    show ?thesis
    proof (cases "max_tokens < estimate_tokens ?t")
      case True
      then have "estimate_tokens (take (nat (max_tokens * 4)) ?t) = max_tokens"
        using assms by (intro estimate_tokens_take)
      with True c f sl show ?thesis by (simp add: Let_def)
    next
      case False
      with c f show ?thesis by (simp add: Let_def)
    qed
  qed
  have adv: "\<exists>res. AdvancedPDFCompressor_compress 1 (1 / 2) ''abcdefghijkl'' = Inr res \<and>
                1 < estimate_tokens (compressed res)"
    by (simp add: advanced_exceeds_ceiling estimate_tokens_def)
  from ret bound adv show ?thesis by blast
qed

text \<open>An instance: ceiling 2, the abbreviated text cut to eight characters.\<close>

theorem simple_compress_ceiling_witness:
  "PDFCompressor_compress 2 ''one and two with three   and -------- four'' =
     Inr \<lparr>compressed = ''one & tw'', original_tokens = 10, final_tokens = 2\<rparr> \<and>
   estimate_tokens ''one & tw'' \<le> 2"
proof -
  have "(0::int) \<le> 2" by simp
  from simple_compress_ceiling[OF this, of "''one and two with three   and -------- four''"]
    PDFCompressor_compress_example
  show ?thesis by auto
qed

end
